theory Spec2Isabelle
  imports Main "HOL-Library.Char_ord" "HOL-Library.List_Lexorder"
begin

section \<open>The tag library, as the scripts use it\<close>

text \<open>
  \<^verbatim>\<open>fix_comments.py\<close> reads and rewrites the ID3 tag of an MP3 file through the
  tagging library: \<^verbatim>\<open>ID3(filepath)\<close> loads the tag as a dictionary from composite keys
  (\<^verbatim>\<open>COMM:desc:lang\<close>, \<^verbatim>\<open>TIT2\<close>, ...) to frames, \<^verbatim>\<open>del audio[key]\<close> drops one entry and
  \<^verbatim>\<open>audio.save()\<close> writes the dictionary back to the file it was loaded from.
  Loading fails on a missing or corrupt file, deleting fails on an absent key and saving
  fails on a file that cannot be written; all three are error values here.

  A frame is an object whose attributes depend on its type; the script reads them behind
  \<^verbatim>\<open>hasattr\<close>, so each attribute is optional here. A dictionary is an association list in
  insertion order; a Python dictionary never holds a key twice, which theorems that need it
  assume as \<open>distinct (map fst audio)\<close>.
\<close>

type_synonym key = string
type_synonym path = string

record frame =
  desc :: "string option"
  lang :: "string option"
  texts :: "string list option"

type_synonym tagset = "(key \<times> frame) list"

datatype mp3 = Unreadable | Tagged tagset

type_synonym disk = "path \<Rightarrow> mp3"

datatype error = LoadError path | KeyError key | SaveError path

text \<open>What the script prints, one constructor per message, and the two calls that change
  a tag: \<open>Del\<close> for a completed \<^verbatim>\<open>del audio[key]\<close>, \<open>Save\<close> for a call of \<^verbatim>\<open>audio.save()\<close>
  with the dictionary it is called on.\<close>

datatype event =
    Banner path
  | BeforeHeader
  | Listed key string string
  | Keeping key string
  | WillRemoveLegacy key string string
  | WillRemoveEmpty key string
  | KeepingOther key string string
  | NoProblems
  | DryRunReport nat
  | Del key
  | Save path tagset
  | AppliedReport nat
  | AfterHeader
  | FixedOk
  | ErrorReport error
  | Found nat string
  | FixingFile path
  | Summary nat
  | Usage
  | BatchNeedsDir

definition ID3 :: "disk \<Rightarrow> path \<Rightarrow> error + tagset" where
  "ID3 d filepath = (case d filepath of Unreadable \<Rightarrow> Inl (LoadError filepath) | Tagged audio \<Rightarrow> Inr audio)"

definition del_item :: "key \<Rightarrow> tagset \<Rightarrow> error + tagset" where
  "del_item k audio =
     (if k \<in> set (map fst audio) then Inr (filter (\<lambda>e. fst e \<noteq> k) audio) else Inl (KeyError k))"

text \<open>
  What \<^verbatim>\<open>audio.save()\<close> leaves in the file is the library's business, not the script's: the
  library encodes the frames again, and it need not write every frame it is given nor keep
  their order. So the library is a parameter: \<open>written lib audio\<close> is the tag that \<^verbatim>\<open>ID3\<close>
  loads from a file after \<^verbatim>\<open>save\<close> has written the dictionary \<open>audio\<close> to it, and
  \<open>read_only lib filepath\<close> says that \<^verbatim>\<open>save\<close> raises on that file, which then stays as it was.
\<close>

record library =
  written :: "tagset \<Rightarrow> tagset"
  read_only :: "path \<Rightarrow> bool"

definition save :: "library \<Rightarrow> path \<Rightarrow> tagset \<Rightarrow> disk \<Rightarrow> error + disk" where
  "save lib filepath audio d =
     (if read_only lib filepath then Inl (SaveError filepath)
      else Inr (d(filepath := Tagged (written lib audio))))"

definition startswith :: "string \<Rightarrow> string \<Rightarrow> bool" where
  "startswith s p = (take (length p) s = p)"

section \<open>fix\_comment\_fields\<close>

text \<open>\<^verbatim>\<open>value.desc if hasattr(value, 'desc') else dflt\<close>, and the same for \<^verbatim>\<open>lang\<close>.\<close>

definition desc_or :: "string \<Rightarrow> frame \<Rightarrow> string" where
  "desc_or dflt v = (case desc v of Some x \<Rightarrow> x | None \<Rightarrow> dflt)"

definition lang_or :: "string \<Rightarrow> frame \<Rightarrow> string" where
  "lang_or dflt v = (case lang v of Some x \<Rightarrow> x | None \<Rightarrow> dflt)"

text \<open>\<^verbatim>\<open>value.text[0] if hasattr(value, 'text') and value.text else ''\<close>\<close>

definition first_text :: "frame \<Rightarrow> string" where
  "first_text v = (case texts v of Some (t # _) \<Rightarrow> t | _ \<Rightarrow> [])"

text \<open>\<^verbatim>\<open>text[:n] + "..." if len(text) > n else text\<close>\<close>

definition preview :: "nat \<Rightarrow> string \<Rightarrow> string" where
  "preview n t = (if length t > n then take n t @ ''...'' else t)"

text \<open>The BEFORE and AFTER listings: the \<^verbatim>\<open>COMM\<close> entries of \<^verbatim>\<open>sorted(audio.items())\<close>.\<close>

definition before_listing :: "tagset \<Rightarrow> event list" where
  "before_listing audio =
     map (\<lambda>(k, v). Listed k (desc_or ''Unknown'' v) (preview 60 (first_text v)))
       (filter (\<lambda>(k, v). startswith k ''COMM'') (sort_key fst audio))"

definition after_listing :: "tagset \<Rightarrow> event list" where
  "after_listing audio =
     map (\<lambda>(k, v). Listed k (desc_or ''Unknown'' v) (first_text v))
       (filter (\<lambda>(k, v). startswith k ''COMM'') (sort_key fst audio))"

text \<open>The body of the loop of lines 39 to 68, on the state
  \<open>(to_remove, custom1_value, printed)\<close>.\<close>

fun scan_step :: "key \<times> frame \<Rightarrow> key list \<times> string option \<times> event list
    \<Rightarrow> key list \<times> string option \<times> event list" where
  "scan_step (k, v) (to_remove, custom1_value, out) =
     (if startswith k ''COMM'' then
        (if desc_or [] v = ''Songs-DB_Custom1'' then
           (to_remove, Some (first_text v), out @ [Keeping k (first_text v)])
         else if desc_or [] v = ''ID3v1 Comment'' \<and> lang_or [] v = ''eng'' then
           (to_remove @ [k], custom1_value,
            out @ [WillRemoveLegacy k (desc_or [] v) (preview 50 (first_text v))])
         else if desc_or [] v = [] \<and> lang_or [] v = ''XXX'' then
           (to_remove @ [k], custom1_value, out @ [WillRemoveEmpty k (preview 50 (first_text v))])
         else
           (to_remove, custom1_value, out @ [KeepingOther k (desc_or [] v) (lang_or [] v)]))
      else (to_remove, custom1_value, out))"

definition scan :: "tagset \<Rightarrow> event list \<Rightarrow> key list \<times> string option \<times> event list" where
  "scan audio out = fold scan_step audio ([], None, out)"

text \<open>The loop of lines 82 and 83; a \<^verbatim>\<open>KeyError\<close> leaves it at once.\<close>

fun del_loop :: "key list \<Rightarrow> tagset \<Rightarrow> event list \<Rightarrow> (error + tagset) \<times> event list" where
  "del_loop [] audio out = (Inr audio, out)"
| "del_loop (k # ks) audio out =
     (case del_item k audio of
        Inl e \<Rightarrow> (Inl e, out)
      | Inr audio' \<Rightarrow> del_loop ks audio' (out @ [Del k]))"

text \<open>The apply branch, lines 81 to 105, after the scan. An exception of a deletion, of the
  save or of the reload ends the call in the handler of lines 107 to 110.\<close>

definition apply_removals :: "library \<Rightarrow> path \<Rightarrow> key list \<Rightarrow> tagset \<Rightarrow> disk \<Rightarrow> event list
    \<Rightarrow> disk \<times> event list" where
  "apply_removals lib filepath to_remove audio d out =
     (case del_loop to_remove audio out of
        (Inl e, out1) \<Rightarrow> (d, out1 @ [ErrorReport e])
      | (Inr audio', out1) \<Rightarrow>
          (case save lib filepath audio' d of
             Inl e \<Rightarrow> (d, out1 @ [Save filepath audio', ErrorReport e])
           | Inr d' \<Rightarrow>
               (let out2 = out1 @ [Save filepath audio', AppliedReport (length to_remove), AfterHeader]
                in case ID3 d' filepath of
                     Inl e \<Rightarrow> (d', out2 @ [ErrorReport e])
                   | Inr reloaded \<Rightarrow> (d', out2 @ after_listing reloaded @ [FixedOk]))))"

definition fix_comment_fields :: "library \<Rightarrow> path \<Rightarrow> bool \<Rightarrow> disk \<Rightarrow> disk \<times> event list" where
  "fix_comment_fields lib filepath dry_run d =
     (case ID3 d filepath of
        Inl e \<Rightarrow> (d, [Banner filepath, ErrorReport e])
      | Inr audio \<Rightarrow>
          (case scan audio ([Banner filepath, BeforeHeader] @ before_listing audio) of
             (to_remove, custom1_value, out) \<Rightarrow>
               if to_remove = [] then (d, out @ [NoProblems])
               else if dry_run then (d, out @ [DryRunReport (length to_remove)])
               else apply_removals lib filepath to_remove audio d out))"

section \<open>batch\_fix\<close>

text \<open>The body of the loop of lines 131 to 141, on the state
  \<open>(has_problem, comm_count, has_custom1)\<close>.\<close>

fun check_step :: "key \<times> frame \<Rightarrow> bool \<times> nat \<times> bool \<Rightarrow> bool \<times> nat \<times> bool" where
  "check_step (k, v) (has_problem, comm_count, has_custom1) =
     (if startswith k ''COMM'' then
        (if desc_or [] v = ''Songs-DB_Custom1'' then (has_problem, comm_count + 1, True)
         else if (desc_or [] v = ''ID3v1 Comment'' \<and> lang_or [] v = ''eng'')
                 \<or> (desc_or [] v = [] \<and> lang_or [] v = ''XXX'')
         then (True, comm_count + 1, has_custom1)
         else (has_problem, comm_count + 1, has_custom1))
      else (has_problem, comm_count, has_custom1))"

text \<open>One round of the loop over the files, lines 123 to 149, on the state
  \<open>(disk, fixed_count, printed)\<close>; the bare \<^verbatim>\<open>except\<close> goes on with the next file.\<close>

definition batch_file :: "library \<Rightarrow> bool \<Rightarrow> path \<Rightarrow> disk \<times> nat \<times> event list
    \<Rightarrow> disk \<times> nat \<times> event list" where
  "batch_file lib dry_run filepath st =
     (case st of (d, fixed_count, out) \<Rightarrow>
        (case ID3 d filepath of
           Inl e \<Rightarrow> (d, fixed_count, out)
         | Inr audio \<Rightarrow>
             (case fold check_step audio (False, 0, False) of
                (has_problem, comm_count, has_custom1) \<Rightarrow>
                  if has_problem then
                    (case fix_comment_fields lib filepath dry_run d of
                       (d', out') \<Rightarrow> (d', fixed_count + 1, out @ [FixingFile filepath] @ out'))
                  else (d, fixed_count, out))))"

text \<open>\<open>glob\<close> is the recursive listing of the \<^verbatim>\<open>*.mp3\<close> files under a directory.\<close>

definition batch_fix :: "library \<Rightarrow> (string \<Rightarrow> path list) \<Rightarrow> string \<Rightarrow> bool \<Rightarrow> disk
    \<Rightarrow> disk \<times> event list" where
  "batch_fix lib glob directory dry_run d =
     (let files = glob directory in
      case fold (batch_file lib dry_run) files (d, 0, [Found (length files) directory]) of
        (d', fixed_count, out) \<Rightarrow> (d', out @ [Summary fixed_count]))"

section \<open>The command line\<close>

fun index :: "'a list \<Rightarrow> 'a \<Rightarrow> nat" where
  "index [] x = 0"
| "index (y # ys) x = (if y = x then 0 else Suc (index ys x))"

text \<open>The script body from line 155 on: the exit status, the disk and what was printed.\<close>

definition main :: "library \<Rightarrow> (string \<Rightarrow> path list) \<Rightarrow> string list \<Rightarrow> disk
    \<Rightarrow> int \<times> disk \<times> event list" where
  "main lib glob argv d =
     (if length argv < 2 then (1, d, [Usage])
      else
        (let apply_changes = (''--apply'' \<in> set argv);
             dry_run = (\<not> apply_changes)
         in if ''--batch'' \<in> set argv then
              (let batch_idx = index argv ''--batch''
               in if batch_idx + 1 < length argv then
                    (case batch_fix lib glob (argv ! (batch_idx + 1)) dry_run d of
                       (d', out) \<Rightarrow> (0, d', out))
                  else (0, d, [BatchNeedsDir]))
            else
              (case fix_comment_fields lib (argv ! 1) dry_run d of
                 (d', out) \<Rightarrow> (0, d', out))))"

section \<open>The decision table of the specification\<close>

text \<open>The classes of the specification's table, read in its order, for a frame with the
  given description and language.\<close>

datatype verdict = Preserve | Remove | PreserveOther

definition spec_classify :: "string \<Rightarrow> string \<Rightarrow> verdict" where
  "spec_classify description language =
     (if description = ''Songs-DB_Custom1'' then Preserve
      else if description = ''ID3v1 Comment'' \<and> language = ''eng'' then Remove
      else if description = [] \<and> language = ''XXX'' then Remove
      else PreserveOther)"

text \<open>The two removal rules of the specification, on the attributes a frame has.\<close>

definition matches_removal_rule :: "frame \<Rightarrow> bool" where
  "matches_removal_rule v =
     ((desc v = Some ''ID3v1 Comment'' \<and> lang v = Some ''eng'')
      \<or> (desc v = Some [] \<and> lang v = Some ''XXX''))"

text \<open>An entry that matches a removal rule as the loops read it: a \<^verbatim>\<open>COMM\<close> key whose frame
  gives description \<^verbatim>\<open>ID3v1 Comment\<close> and language \<^verbatim>\<open>eng\<close>, or an empty description and language
  \<^verbatim>\<open>XXX\<close>, an absent attribute read as empty.\<close>

definition removable :: "key \<times> frame \<Rightarrow> bool" where
  "removable e = (startswith (fst e) ''COMM'' \<and>
     ((desc_or [] (snd e) = ''ID3v1 Comment'' \<and> lang_or [] (snd e) = ''eng'')
      \<or> (desc_or [] (snd e) = [] \<and> lang_or [] (snd e) = ''XXX'')))"

definition needs_fixing :: "disk \<Rightarrow> path \<Rightarrow> bool" where
  "needs_fixing d filepath =
     (case d filepath of Unreadable \<Rightarrow> False | Tagged audio \<Rightarrow> filter removable audio \<noteq> [])"

definition loadable :: "disk \<Rightarrow> path \<Rightarrow> bool" where
  "loadable d filepath = (case d filepath of Unreadable \<Rightarrow> False | Tagged audio \<Rightarrow> True)"

text \<open>The events that change a tag, and the event that opens a call of
  \<open>fix_comment_fields\<close>.\<close>

fun is_mutation :: "event \<Rightarrow> bool" where
  "is_mutation (Del k) = True"
| "is_mutation (Save p a) = True"
| "is_mutation _ = False"

fun is_banner :: "event \<Rightarrow> bool" where
  "is_banner (Banner p) = True"
| "is_banner _ = False"

text \<open>What a call has printed when the loop of lines 39 to 68 is over.\<close>

definition scanned :: "path \<Rightarrow> tagset \<Rightarrow> event list" where
  "scanned filepath audio =
     snd (snd (scan audio ([Banner filepath, BeforeHeader] @ before_listing audio)))"

section \<open>Sample tags\<close>

text \<open>A library that writes every frame it is given, to files that can all be written.\<close>

definition faithful :: library where
  "faithful = \<lparr>written = (\<lambda>audio. audio), read_only = (\<lambda>filepath. False)\<rparr>"

text \<open>A library that leaves out the frames without text, and one that cannot write
  \<^verbatim>\<open>song.mp3\<close>.\<close>

definition sparing :: library where
  "sparing = \<lparr>written = filter (\<lambda>e. first_text (snd e) \<noteq> []), read_only = (\<lambda>filepath. False)\<rparr>"

definition refusing :: library where
  "refusing = \<lparr>written = (\<lambda>audio. audio), read_only = (\<lambda>filepath. filepath = ''song.mp3'')\<rparr>"

text \<open>A \<^verbatim>\<open>COMM\<close> frame as the library builds it, with all three attributes.\<close>

definition comm :: "string \<Rightarrow> string \<Rightarrow> string list \<Rightarrow> frame" where
  "comm d l t = \<lparr>desc = Some d, lang = Some l, texts = Some t\<rparr>"

definition title :: "string \<Rightarrow> frame" where
  "title t = \<lparr>desc = None, lang = None, texts = Some [t]\<rparr>"

text \<open>The tag of the specification's scenario, in a file \<^verbatim>\<open>song.mp3\<close>.\<close>

definition scenario :: tagset where
  "scenario =
     [(''COMM::eng'', comm [] ''eng'' [''dup'']),
      (''COMM:ID3v1 Comment:eng'', comm ''ID3v1 Comment'' ''eng'' [''legacy'']),
      (''COMM:Songs-DB_Custom1:XXX'', comm ''Songs-DB_Custom1'' ''XXX'' [''keep me''])]"

definition scenario_disk :: disk where
  "scenario_disk = (\<lambda>p. Unreadable)(''song.mp3'' := Tagged scenario)"

text \<open>Two more tags, one with a frame to remove and one without, and two directories:
  \<^verbatim>\<open>music\<close> with an unreadable file among four, \<^verbatim>\<open>shelf\<close> with an unreadable file
  between two files that need no change.\<close>

definition mixed :: tagset where
  "mixed =
     [(''TIT2'', title ''Song''),
      (''COMM::XXX'', comm [] ''XXX'' [''junk'']),
      (''COMM:Songs-DB_Custom1:XXX'', comm ''Songs-DB_Custom1'' ''XXX'' [''real''])]"

definition tidy :: tagset where
  "tidy =
     [(''TIT2'', title ''Song''),
      (''COMM:Songs-DB_Custom1:XXX'', comm ''Songs-DB_Custom1'' ''XXX'' [''real''])]"

definition library_disk :: disk where
  "library_disk = (\<lambda>p. Unreadable)
     (''music/a.mp3'' := Tagged mixed, ''music/c.mp3'' := Tagged tidy,
      ''music/d.mp3'' := Tagged scenario)"

definition library_glob :: "string \<Rightarrow> path list" where
  "library_glob directory =
     (if directory = ''music''
      then [''music/a.mp3'', ''music/b.mp3'', ''music/c.mp3'', ''music/d.mp3''] else [])"

definition shelf_disk :: disk where
  "shelf_disk = (\<lambda>p. Unreadable)
     (''shelf/a.mp3'' := Tagged tidy, ''shelf/c.mp3'' := Tagged [(''TIT2'', title ''Song'')])"

definition shelf_glob :: "string \<Rightarrow> path list" where
  "shelf_glob directory =
     (if directory = ''shelf'' then [''shelf/a.mp3'', ''shelf/b.mp3'', ''shelf/c.mp3''] else [])"

text \<open>A tag whose \<^verbatim>\<open>Songs-DB_Custom1\<close> frame has an empty text.\<close>

definition textless :: tagset where
  "textless =
     [(''COMM:ID3v1 Comment:eng'', comm ''ID3v1 Comment'' ''eng'' [''legacy'']),
      (''COMM:Songs-DB_Custom1:XXX'', comm ''Songs-DB_Custom1'' ''XXX'' [[]])]"

section \<open>The loops\<close>

lemma scan_to_remove:
  "fst (fold scan_step ts (rm, c, out)) = rm @ map fst (filter removable ts)"
  by (induction ts arbitrary: rm c out) (auto simp: removable_def)

lemma scan_no_mutation:
  "filter is_mutation (snd (snd (fold scan_step ts (rm, c, out)))) = filter is_mutation out"
  by (induction ts arbitrary: rm c out) auto

lemma scan_no_banner:
  "filter is_banner (snd (snd (fold scan_step ts (rm, c, out)))) = filter is_banner out"
  by (induction ts arbitrary: rm c out) auto

lemma scan_out_mono:
  "set out \<subseteq> set (snd (snd (fold scan_step ts (rm, c, out))))"
proof (induction ts arbitrary: rm c out)
  case Nil
  then show ?case by simp
next
  case (Cons e ts)
  obtain k v where e: "e = (k, v)" by (cases e)
  obtain rm' c' out' where s: "scan_step (k, v) (rm, c, out) = (rm', c', out')"
    by (cases "scan_step (k, v) (rm, c, out)")
  then have "set out \<subseteq> set out'" by (auto split: if_splits)
  with Cons.IH [where rm = rm' and c = c' and out = out'] show ?case
    by (auto simp: e s simp del: scan_step.simps)
qed

lemma del_loop_result:
  "del_loop ks ts out = (Inr ts', out') \<Longrightarrow>
     ts' = filter (\<lambda>e. fst e \<notin> set ks) ts \<and> out' = out @ map Del ks"
proof (induction ks arbitrary: ts out)
  case Nil
  then show ?case by simp
next
  case (Cons k ks)
  let ?ts = "filter (\<lambda>e. fst e \<noteq> k) ts"
  from Cons.prems have "del_loop ks ?ts (out @ [Del k]) = (Inr ts', out')"
    by (simp add: del_item_def split: if_splits)
  from Cons.IH [OF this] show ?case by (simp add: conj_commute)
qed

lemma del_loop_ok:
  "distinct ks \<Longrightarrow> set ks \<subseteq> fst ` set ts \<Longrightarrow>
     del_loop ks ts out = (Inr (filter (\<lambda>e. fst e \<notin> set ks) ts), out @ map Del ks)"
proof (induction ks arbitrary: ts out)
  case Nil
  then show ?case by simp
next
  case (Cons k ks)
  let ?ts = "filter (\<lambda>e. fst e \<noteq> k) ts"
  have "set ks \<subseteq> fst ` set ?ts"
  proof
    fix x assume x: "x \<in> set ks"
    with Cons.prems obtain e where "e \<in> set ts" "fst e = x" by auto
    moreover from x Cons.prems have "x \<noteq> k" by auto
    ultimately show "x \<in> fst ` set ?ts" by force
  qed
  with Cons.prems Cons.IH [of ?ts "out @ [Del k]"]
  have "del_loop ks ?ts (out @ [Del k]) =
      (Inr (filter (\<lambda>e. fst e \<notin> set ks) ?ts), (out @ [Del k]) @ map Del ks)"
    by simp
  moreover from Cons.prems have "k \<in> fst ` set ts" by simp
  ultimately show ?case by (simp add: del_item_def conj_commute)
qed

lemma keys_removed:
  assumes "distinct (map fst ts)"
  shows "filter (\<lambda>e. fst e \<notin> set (map fst (filter removable ts))) ts
    = filter (\<lambda>e. \<not> removable e) ts"
proof (rule filter_cong [OF refl])
  fix e assume e: "e \<in> set ts"
  show "(fst e \<notin> set (map fst (filter removable ts))) = (\<not> removable e)"
  proof
    assume "fst e \<notin> set (map fst (filter removable ts))"
    with e show "\<not> removable e" by force
  next
    assume n: "\<not> removable e"
    show "fst e \<notin> set (map fst (filter removable ts))"
    proof
      assume "fst e \<in> set (map fst (filter removable ts))"
      then obtain e' where e': "e' \<in> set ts" "removable e'" "fst e' = fst e" by auto
      with e assms have "e' = e"
        by (metis distinct_map inj_onD)
      with e' n show False by simp
    qed
  qed
qed

lemmas run_simps = fix_comment_fields_def ID3_def scan_def startswith_def desc_or_def
  lang_or_def first_text_def preview_def apply_removals_def del_item_def save_def
  before_listing_def after_listing_def comm_def title_def faithful_def

lemma del_loop_dels:
  "\<exists>ds. set ds \<subseteq> set ks \<and> snd (del_loop ks ts out) = out @ map Del ds"
proof (induction ks arbitrary: ts out)
  case Nil
  then show ?case by simp
next
  case (Cons k ks)
  show ?case
  proof (cases "del_item k ts")
    case (Inl e)
    then have "set [] \<subseteq> set (k # ks) \<and> snd (del_loop (k # ks) ts out) = out @ map Del []"
      by simp
    then show ?thesis by blast
  next
    case (Inr ts')
    from Cons.IH [of ts' "out @ [Del k]"] obtain ds
      where ds: "set ds \<subseteq> set ks" "snd (del_loop ks ts' (out @ [Del k])) = (out @ [Del k]) @ map Del ds"
      by blast
    with Inr have "set (k # ds) \<subseteq> set (k # ks)
        \<and> snd (del_loop (k # ks) ts out) = out @ map Del (k # ds)"
      by auto
    then show ?thesis by blast
  qed
qed

section \<open>What one call does\<close>

lemma scan_eq:
  "\<exists>c. scan ts ([Banner p, BeforeHeader] @ before_listing ts) =
     (map fst (filter removable ts), c, scanned p ts)"
proof -
  have "fst (scan ts ([Banner p, BeforeHeader] @ before_listing ts)) = map fst (filter removable ts)"
    unfolding scan_def by (simp add: scan_to_remove)
  then show ?thesis
    unfolding scanned_def by (metis prod.collapse)
qed

lemma listing_no_mutation:
  "filter is_mutation (before_listing ts) = []" "filter is_mutation (after_listing ts) = []"
  by (auto simp: before_listing_def after_listing_def filter_empty_conv)

lemma listing_no_banner:
  "filter is_banner (before_listing ts) = []" "filter is_banner (after_listing ts) = []"
  by (auto simp: before_listing_def after_listing_def filter_empty_conv)

lemma scanned_no_mutation: "filter is_mutation (scanned p ts) = []"
  unfolding scanned_def scan_def by (simp add: scan_no_mutation listing_no_mutation)

lemma scanned_banner: "filter is_banner (scanned p ts) = [Banner p]"
  unfolding scanned_def scan_def by (simp add: scan_no_banner listing_no_banner)

lemma fix_unreadable:
  "d p = Unreadable \<Longrightarrow> fix_comment_fields lib p dry d = (d, [Banner p, ErrorReport (LoadError p)])"
  by (simp add: fix_comment_fields_def ID3_def)

lemma fix_clean:
  "d p = Tagged ts \<Longrightarrow> filter removable ts = [] \<Longrightarrow>
     fix_comment_fields lib p dry d = (d, scanned p ts @ [NoProblems])"
  using scan_eq [of ts p] by (auto simp: fix_comment_fields_def ID3_def simp del: append.simps)

lemma fix_dry:
  "d p = Tagged ts \<Longrightarrow> filter removable ts \<noteq> [] \<Longrightarrow>
     fix_comment_fields lib p True d =
       (d, scanned p ts @ [DryRunReport (length (filter removable ts))])"
  using scan_eq [of ts p] by (auto simp: fix_comment_fields_def ID3_def simp del: append.simps)

lemma removable_keys_present: "set (map fst (filter removable ts)) \<subseteq> fst ` set ts"
  by auto

text \<open>The five ways a call on a loaded tag can end.\<close>

lemma fix_shape:
  assumes "d p = Tagged ts"
  shows "(filter removable ts = []
        \<and> fix_comment_fields lib p dry d = (d, scanned p ts @ [NoProblems]))
    \<or> (dry \<and> filter removable ts \<noteq> []
        \<and> fix_comment_fields lib p dry d
          = (d, scanned p ts @ [DryRunReport (length (filter removable ts))]))
    \<or> (\<not> dry \<and> filter removable ts \<noteq> []
        \<and> (\<exists>ds e. set ds \<subseteq> set (map fst (filter removable ts))
            \<and> fix_comment_fields lib p dry d
              = (d, scanned p ts @ map Del ds @ [ErrorReport e])))
    \<or> (\<not> dry \<and> filter removable ts \<noteq> [] \<and> read_only lib p
        \<and> fix_comment_fields lib p dry d
          = (d, scanned p ts @ map Del (map fst (filter removable ts))
               @ [Save p (filter (\<lambda>e. fst e \<notin> set (map fst (filter removable ts))) ts),
                  ErrorReport (SaveError p)]))
    \<or> (\<not> dry \<and> filter removable ts \<noteq> [] \<and> \<not> read_only lib p
        \<and> fix_comment_fields lib p dry d
          = (d(p := Tagged (written lib
                 (filter (\<lambda>e. fst e \<notin> set (map fst (filter removable ts))) ts))),
             scanned p ts @ map Del (map fst (filter removable ts))
               @ [Save p (filter (\<lambda>e. fst e \<notin> set (map fst (filter removable ts))) ts),
                  AppliedReport (length (filter removable ts)), AfterHeader]
               @ after_listing (written lib
                   (filter (\<lambda>e. fst e \<notin> set (map fst (filter removable ts))) ts))
               @ [FixedOk]))"
proof (cases "filter removable ts = []")
  case True
  with assms show ?thesis by (simp add: fix_clean)
next
  case ne: False
  show ?thesis
  proof (cases dry)
    case True
    with assms ne show ?thesis by (simp add: fix_dry)
  next
    case False
    let ?ks = "map fst (filter removable ts)"
    let ?a = "filter (\<lambda>e. fst e \<notin> set ?ks) ts"
    obtain c where sc: "scan ts ([Banner p, BeforeHeader] @ before_listing ts) =
        (?ks, c, scanned p ts)"
      using scan_eq [of ts p] by blast
    have fx: "fix_comment_fields lib p dry d = apply_removals lib p ?ks ts d (scanned p ts)"
      using assms ne False sc by (simp add: fix_comment_fields_def ID3_def del: append.simps)
    obtain r out where r: "del_loop ?ks ts (scanned p ts) = (r, out)"
      by (cases "del_loop ?ks ts (scanned p ts)")
    from del_loop_dels [of ?ks ts "scanned p ts"] r obtain ds
      where ds: "set ds \<subseteq> set ?ks" "out = scanned p ts @ map Del ds" by auto
    show ?thesis
    proof (cases r)
      case (Inl e)
      with r ds fx have "fix_comment_fields lib p dry d
          = (d, scanned p ts @ map Del ds @ [ErrorReport e])"
        by (simp add: apply_removals_def)
      with ds(1) ne False show ?thesis by blast
    next
      case (Inr ts')
      with r del_loop_result [of ?ks ts "scanned p ts" ts' out]
      have res: "ts' = ?a" "out = scanned p ts @ map Del ?ks" by simp_all
      show ?thesis
      proof (cases "read_only lib p")
        case True
        with r Inr res fx have "fix_comment_fields lib p dry d
            = (d, scanned p ts @ map Del ?ks @ [Save p ?a, ErrorReport (SaveError p)])"
          by (simp add: apply_removals_def save_def)
        with ne False True show ?thesis by simp
      next
        case w: False
        with r Inr res fx have "fix_comment_fields lib p dry d
            = (d(p := Tagged (written lib ?a)),
               scanned p ts @ map Del ?ks
                 @ [Save p ?a, AppliedReport (length (filter removable ts)), AfterHeader]
                 @ after_listing (written lib ?a) @ [FixedOk])"
          by (simp add: apply_removals_def save_def ID3_def)
        with ne False w show ?thesis by simp
      qed
    qed
  qed
qed

lemma scanned_no_del: "Del k \<notin> set (scanned p ts)"
proof
  assume "Del k \<in> set (scanned p ts)"
  then have "Del k \<in> set (filter is_mutation (scanned p ts))" by simp
  then show False by (simp add: scanned_no_mutation)
qed

lemma scanned_no_save: "Save q a \<notin> set (scanned p ts)"
proof
  assume "Save q a \<in> set (scanned p ts)"
  then have "Save q a \<in> set (filter is_mutation (scanned p ts))" by simp
  then show False by (simp add: scanned_no_mutation)
qed

lemma after_listing_no_del: "Del k \<notin> set (after_listing ts)"
  by (auto simp: after_listing_def)

lemma after_listing_no_save: "Save q a \<notin> set (after_listing ts)"
  by (auto simp: after_listing_def)

lemma fix_disk_cases:
  assumes "d p = Tagged ts"
  shows "fst (fix_comment_fields lib p dry d) = d
    \<or> (\<not> dry \<and> \<not> read_only lib p \<and> fst (fix_comment_fields lib p dry d)
        = d(p := Tagged (written lib
             (filter (\<lambda>e. fst e \<notin> set (map fst (filter removable ts))) ts))))"
  using fix_shape [of d p ts lib dry] assms by auto

lemma fix_del_in_keys:
  assumes "d p = Tagged ts" and "Del k \<in> set (snd (fix_comment_fields lib p dry d))"
  shows "\<not> dry \<and> k \<in> set (map fst (filter removable ts))"
  using fix_shape [of d p ts lib dry] assms
  by (force simp: scanned_no_del after_listing_no_del)

lemma fix_save_arg:
  assumes "d p = Tagged ts" and "Save q a \<in> set (snd (fix_comment_fields lib p dry d))"
  shows "\<not> dry \<and> q = p
    \<and> a = filter (\<lambda>e. fst e \<notin> set (map fst (filter removable ts))) ts"
  using fix_shape [of d p ts lib dry] assms
  by (auto simp: scanned_no_save after_listing_no_save)

lemma fix_prints_scanned:
  assumes "d p = Tagged ts"
  shows "set (scanned p ts) \<subseteq> set (snd (fix_comment_fields lib p dry d))"
  using fix_shape [of d p ts lib dry] assms by auto

lemma fix_dry_disk: "fst (fix_comment_fields lib p True d) = d"
proof (cases "d p")
  case Unreadable
  then show ?thesis by (simp add: fix_unreadable)
next
  case (Tagged ts)
  then show ?thesis by (cases "filter removable ts = []") (simp_all add: fix_clean fix_dry)
qed

lemma fix_dry_quiet: "filter is_mutation (snd (fix_comment_fields lib p True d)) = []"
proof (cases "d p")
  case Unreadable
  then show ?thesis by (simp add: fix_unreadable)
next
  case (Tagged ts)
  then show ?thesis
    by (cases "filter removable ts = []") (simp_all add: fix_clean fix_dry scanned_no_mutation)
qed

lemma fix_banner: "filter is_banner (snd (fix_comment_fields lib p dry d)) = [Banner p]"
proof (cases "d p")
  case Unreadable
  then show ?thesis by (simp add: fix_unreadable)
next
  case (Tagged ts)
  have "filter is_banner (map Del ds) = []" for ds
    by (induction ds) auto
  with fix_shape [of d p ts lib dry] Tagged show ?thesis
    by (auto simp: scanned_banner listing_no_banner)
qed

lemma fix_other_files:
  "q \<noteq> p \<Longrightarrow> fst (fix_comment_fields lib p dry d) q = d q"
proof (cases "d p")
  case Unreadable
  then show ?thesis by (simp add: fix_unreadable)
next
  case (Tagged ts)
  assume "q \<noteq> p"
  with fix_disk_cases [of d p ts lib dry] Tagged show ?thesis by auto
qed

lemma fix_loadable: "loadable (fst (fix_comment_fields lib p dry d)) = loadable d"
proof (rule ext)
  fix q
  show "loadable (fst (fix_comment_fields lib p dry d)) q = loadable d q"
  proof (cases "q = p")
    case False
    then show ?thesis by (simp add: loadable_def fix_other_files)
  next
    case True
    show ?thesis
    proof (cases "d p")
      case Unreadable
      then show ?thesis by (simp add: fix_unreadable)
    next
      case (Tagged ts)
      with fix_disk_cases [of d p ts lib dry] True show ?thesis
        by (auto simp: loadable_def)
    qed
  qed
qed

lemma scan_step_out:
  "snd (snd (scan_step e (rm, c, out))) = out @ snd (snd (scan_step e ([], None, [])))"
  by (cases e) auto

lemma scan_prints:
  "e \<in> set ts \<Longrightarrow>
     set (snd (snd (scan_step e ([], None, [])))) \<subseteq> set (snd (snd (fold scan_step ts (rm, c, out))))"
proof (induction ts arbitrary: rm c out)
  case Nil
  then show ?case by simp
next
  case (Cons x ts)
  obtain rm' c' out' where s: "scan_step x (rm, c, out) = (rm', c', out')"
    by (cases "scan_step x (rm, c, out)")
  show ?case
  proof (cases "e = x")
    case True
    from s scan_step_out [of x rm c out]
    have "set (snd (snd (scan_step x ([], None, [])))) \<subseteq> set out'" by simp
    with scan_out_mono [of out' ts rm' c'] True show ?thesis by (simp add: s)
  next
    case False
    with Cons.prems have "e \<in> set ts" by simp
    from Cons.IH [OF this, of rm' c' out'] show ?thesis by (simp add: s)
  qed
qed

lemma scanned_prints:
  "e \<in> set ts \<Longrightarrow> set (snd (snd (scan_step e ([], None, [])))) \<subseteq> set (scanned p ts)"
  unfolding scanned_def scan_def by (rule scan_prints)

lemma check_step_fst: "fst (check_step e (hp, n, c)) = (hp \<or> removable e)"
  by (cases e) (auto simp: removable_def)

lemma check_has_problem:
  "fst (fold check_step ts (hp, n, c)) = (hp \<or> filter removable ts \<noteq> [])"
proof (induction ts arbitrary: hp n c)
  case Nil
  then show ?case by simp
next
  case (Cons e ts)
  obtain hp' n' c' where s: "check_step e (hp, n, c) = (hp', n', c')"
    by (cases "check_step e (hp, n, c)")
  with check_step_fst [of e hp n c] have "hp' = (hp \<or> removable e)" by simp
  with Cons.IH [of hp' n' c'] s show ?case by auto
qed

lemma batch_file_eq:
  "batch_file lib dry p (d, n, out) =
     (if needs_fixing d p
      then (fst (fix_comment_fields lib p dry d), n + 1, out @ [FixingFile p] @ snd (fix_comment_fields lib p dry d))
      else (d, n, out))"
proof (cases "d p")
  case Unreadable
  then show ?thesis by (simp add: batch_file_def ID3_def needs_fixing_def)
next
  case (Tagged ts)
  obtain hp m c where f: "fold check_step ts (False, 0, False) = (hp, m, c)"
    by (cases "fold check_step ts (False, 0, False)")
  with check_has_problem [of ts False 0 False] have "hp = (filter removable ts \<noteq> [])" by simp
  with Tagged f show ?thesis
    by (simp add: batch_file_def ID3_def needs_fixing_def split: prod.splits)
qed

lemma batch_skips_unreadable:
  "fold (batch_file lib dry) (filter (loadable d) files) (d, n, out)
     = fold (batch_file lib dry) files (d, n, out)"
proof (induction files arbitrary: d n out)
  case Nil
  then show ?case by simp
next
  case (Cons p files)
  show ?case
  proof (cases "needs_fixing d p")
    case True
    then have l: "loadable d p" by (auto simp: needs_fixing_def loadable_def split: mp3.splits)
    let ?d = "fst (fix_comment_fields lib p dry d)"
    have "filter (loadable d) files = filter (loadable ?d) files"
      by (simp add: fix_loadable)
    with Cons.IH [of ?d] True l show ?thesis by (simp add: batch_file_eq)
  next
    case False
    with Cons.IH [of d n out] show ?thesis by (simp add: batch_file_eq)
  qed
qed

lemma batch_fold:
  assumes "distinct files"
    and "fold (batch_file lib dry) files (d, n, out) = (d', n', out')"
  shows "n' = n + length (filter (needs_fixing d) files)
    \<and> filter is_banner out' = filter is_banner out @ map Banner (filter (needs_fixing d) files)"
  using assms
proof (induction files arbitrary: d n out)
  case Nil
  then show ?case by simp
next
  case (Cons p files)
  let ?d = "fst (fix_comment_fields lib p dry d)"
  have same: "filter (needs_fixing ?d) files = filter (needs_fixing d) files"
  proof (rule filter_cong [OF refl])
    fix q assume "q \<in> set files"
    with Cons.prems(1) have "q \<noteq> p" by auto
    then show "needs_fixing ?d q = needs_fixing d q"
      by (simp add: needs_fixing_def fix_other_files)
  qed
  from Cons.prems(1) have dist: "distinct files" by simp
  show ?case
  proof (cases "needs_fixing d p")
    case True
    with Cons.prems(2)
    have "fold (batch_file lib dry) files
        (?d, n + 1, out @ [FixingFile p] @ snd (fix_comment_fields lib p dry d)) = (d', n', out')"
      by (simp add: batch_file_eq)
    from Cons.IH [OF dist this] True same show ?thesis
      by (simp add: fix_banner)
  next
    case False
    with Cons.prems(2) have "fold (batch_file lib dry) files (d, n, out) = (d', n', out')"
      by (simp add: batch_file_eq)
    from Cons.IH [OF dist this] False show ?thesis by simp
  qed
qed

lemma batch_fold_out:
  "fold (batch_file lib dry) files (d, n, out) =
     (case fold (batch_file lib dry) files (d, n, []) of (d', n', out') \<Rightarrow> (d', n', out @ out'))"
proof (induction files arbitrary: d n out)
  case Nil
  then show ?case by simp
next
  case (Cons p files)
  show ?case
  proof (cases "needs_fixing d p")
    case True
    let ?d = "fst (fix_comment_fields lib p dry d)"
    let ?x = "[FixingFile p] @ snd (fix_comment_fields lib p dry d)"
    from Cons.IH [of ?d "n + 1" "out @ ?x"] Cons.IH [of ?d "n + 1" ?x] True
    show ?thesis
      by (simp add: batch_file_eq split: prod.splits)
  next
    case False
    with Cons.IH [of d n out] show ?thesis by (simp add: batch_file_eq)
  qed
qed

lemma batch_fix_eq:
  "batch_fix lib glob directory dry d =
     (case fold (batch_file lib dry) (glob directory) (d, 0, []) of
        (d', n', out') \<Rightarrow> (d', [Found (length (glob directory)) directory] @ out' @ [Summary n']))"
  unfolding batch_fix_def Let_def
  by (subst batch_fold_out) (simp split: prod.splits)

section \<open>Which frames a call removes\<close>

lemma removable_key_iff:
  assumes "distinct (map fst ts)" and "(k, v) \<in> set ts"
  shows "(k \<in> set (map fst (filter removable ts))) = removable (k, v)"
proof
  assume "k \<in> set (map fst (filter removable ts))"
  then obtain e where e: "e \<in> set ts" "removable e" "fst e = k" by auto
  with assms have "e = (k, v)" by (metis distinct_map inj_onD fst_conv)
  with e show "removable (k, v)" by simp
next
  assume "removable (k, v)"
  with assms(2) show "k \<in> set (map fst (filter removable ts))" by force
qed

lemma removable_iff_verdict:
  assumes "startswith k ''COMM''" and "desc v = Some description" and "lang v = Some language"
  shows "removable (k, v) = (spec_classify description language = Remove)"
  using assms by (auto simp: removable_def spec_classify_def desc_or_def lang_or_def)

lemma rule_removable:
  "startswith k ''COMM'' \<Longrightarrow> matches_removal_rule v \<Longrightarrow> removable (k, v)"
  by (auto simp: removable_def matches_removal_rule_def desc_or_def lang_or_def)

lemma fix_apply:
  assumes "d p = Tagged ts" and "distinct (map fst ts)" and "filter removable ts \<noteq> []"
  shows "fix_comment_fields lib p False d =
      (if read_only lib p
       then (d, scanned p ts @ map Del (map fst (filter removable ts))
               @ [Save p (filter (\<lambda>e. \<not> removable e) ts), ErrorReport (SaveError p)])
       else (d(p := Tagged (written lib (filter (\<lambda>e. \<not> removable e) ts))),
             scanned p ts @ map Del (map fst (filter removable ts))
               @ [Save p (filter (\<lambda>e. \<not> removable e) ts),
                  AppliedReport (length (filter removable ts)), AfterHeader]
               @ after_listing (written lib (filter (\<lambda>e. \<not> removable e) ts)) @ [FixedOk]))"
proof -
  let ?ks = "map fst (filter removable ts)"
  let ?a = "filter (\<lambda>e. \<not> removable e) ts"
  from assms(2) have "distinct ?ks" by (simp add: distinct_map_filter)
  from del_loop_ok [OF this removable_keys_present, of "scanned p ts"]
  have dl: "del_loop ?ks ts (scanned p ts) = (Inr ?a, scanned p ts @ map Del ?ks)"
    by (simp only: keys_removed [OF assms(2)])
  obtain c where sc: "scan ts ([Banner p, BeforeHeader] @ before_listing ts) =
      (?ks, c, scanned p ts)"
    using scan_eq [of ts p] by blast
  have "fix_comment_fields lib p False d = apply_removals lib p ?ks ts d (scanned p ts)"
    using assms(1,3) sc by (simp add: fix_comment_fields_def ID3_def del: append.simps)
  with dl show ?thesis
    by (simp add: apply_removals_def save_def ID3_def)
qed

lemma fix_saves_kept:
  assumes "d p = Tagged ts" and "distinct (map fst ts)"
    and "Save q a \<in> set (snd (fix_comment_fields lib p dry d))"
  shows "a = filter (\<lambda>e. \<not> removable e) ts"
  using fix_save_arg [of d p ts q a lib dry] assms keys_removed [of ts] by simp

lemma fix_tags_after:
  assumes "d p = Tagged ts" and "distinct (map fst ts)"
  shows "fst (fix_comment_fields lib p dry d) p =
     Tagged (if dry \<or> read_only lib p \<or> filter removable ts = [] then ts
             else written lib (filter (\<lambda>e. \<not> removable e) ts))"
proof (cases "filter removable ts = []")
  case True
  with assms(1) show ?thesis by (simp add: fix_clean)
next
  case False
  with fix_apply [of d p ts lib] assms fix_dry_disk [of lib p d] show ?thesis
    by (cases dry) simp_all
qed

lemma fix_removes:
  assumes "d p = Tagged ts" and "distinct (map fst ts)" and "(k, v) \<in> set ts"
    and "removable (k, v)"
  shows "Del k \<in> set (snd (fix_comment_fields lib p False d))
    \<and> Save p (filter (\<lambda>e. \<not> removable e) ts) \<in> set (snd (fix_comment_fields lib p False d))
    \<and> k \<notin> fst ` set (filter (\<lambda>e. \<not> removable e) ts)"
proof -
  from assms(3,4) have ne: "filter removable ts \<noteq> []" by (auto simp: filter_empty_conv)
  from assms(3,4) have "k \<in> set (map fst (filter removable ts))" by force
  with fix_apply [of d p ts lib] assms(1,2) ne
  have del: "Del k \<in> set (snd (fix_comment_fields lib p False d))"
    and sv: "Save p (filter (\<lambda>e. \<not> removable e) ts) \<in> set (snd (fix_comment_fields lib p False d))"
    by auto
  have "k \<notin> fst ` set (filter (\<lambda>e. \<not> removable e) ts)"
  proof
    assume "k \<in> fst ` set (filter (\<lambda>e. \<not> removable e) ts)"
    then obtain e where e: "e \<in> set ts" "\<not> removable e" "fst e = k" by auto
    with assms(2,3) have "e = (k, v)" by (metis distinct_map inj_onD fst_conv)
    with e assms(4) show False by simp
  qed
  with del sv show ?thesis by simp
qed

section \<open>Properties of the cleanup\<close>

text \<open>
  C1. For every \<^verbatim>\<open>COMM\<close> entry \<open>(k, v)\<close> of a loaded tag, with the description and the
  language that the frame \<open>v\<close> has, \<open>fix_comment_fields\<close> treats the frame as the decision
  table of the specification classifies that description and language. A frame classified
  preserve (description \<^verbatim>\<open>Songs-DB_Custom1\<close>) is announced as kept, its key is not in
  \<open>to_remove\<close>, it is never deleted, and every dictionary handed to \<^verbatim>\<open>save\<close> still holds it. A
  frame classified remove (description \<^verbatim>\<open>ID3v1 Comment\<close> with language \<^verbatim>\<open>eng\<close>, or empty
  description with language \<^verbatim>\<open>XXX\<close>) has its key in \<open>to_remove\<close> and is announced for removal;
  in apply mode it is deleted, and the dictionary handed to \<^verbatim>\<open>save\<close> has no entry under its
  key. Every other frame is announced as another kept field, its key is not in \<open>to_remove\<close>,
  it is never deleted, and every dictionary handed to \<^verbatim>\<open>save\<close> still holds it, unchanged.
  The tag has no key twice, as a dictionary.
\<close>

theorem classification_follows_decision_table:
  assumes "d p = Tagged ts" and "distinct (map fst ts)"
    and "(k, v) \<in> set ts" and "startswith k ''COMM''"
    and "desc v = Some description" and "lang v = Some language"
  shows "case spec_classify description language of
      Preserve \<Rightarrow>
        k \<notin> set (fst (scan ts before))
        \<and> Keeping k (first_text v) \<in> set (snd (fix_comment_fields lib p dry d))
        \<and> Del k \<notin> set (snd (fix_comment_fields lib p dry d))
        \<and> (\<forall>q a. Save q a \<in> set (snd (fix_comment_fields lib p dry d)) \<longrightarrow> (k, v) \<in> set a)
    | Remove \<Rightarrow>
        k \<in> set (fst (scan ts before))
        \<and> (WillRemoveLegacy k description (preview 50 (first_text v))
              \<in> set (snd (fix_comment_fields lib p dry d))
            \<or> WillRemoveEmpty k (preview 50 (first_text v))
              \<in> set (snd (fix_comment_fields lib p dry d)))
        \<and> (\<not> dry \<longrightarrow> Del k \<in> set (snd (fix_comment_fields lib p dry d))
              \<and> (\<exists>a. Save p a \<in> set (snd (fix_comment_fields lib p dry d))
                    \<and> k \<notin> fst ` set a))
    | PreserveOther \<Rightarrow>
        k \<notin> set (fst (scan ts before))
        \<and> KeepingOther k description language \<in> set (snd (fix_comment_fields lib p dry d))
        \<and> Del k \<notin> set (snd (fix_comment_fields lib p dry d))
        \<and> (\<forall>q a. Save q a \<in> set (snd (fix_comment_fields lib p dry d)) \<longrightarrow> (k, v) \<in> set a)"
proof -
  have dv: "desc_or [] v = description" "lang_or [] v = language"
    using assms(5,6) by (simp_all add: desc_or_def lang_or_def)
  have rm: "fst (scan ts before) = map fst (filter removable ts)"
    unfolding scan_def by (simp add: scan_to_remove)
  have rv: "removable (k, v) = (spec_classify description language = Remove)"
    using removable_iff_verdict [OF assms(4,5,6)] .
  have key: "(k \<in> set (fst (scan ts before))) = (spec_classify description language = Remove)"
    using removable_key_iff [OF assms(2,3)] rv by (simp add: rm)
  have printed: "set (snd (snd (scan_step (k, v) ([], None, []))))
      \<subseteq> set (snd (fix_comment_fields lib p dry d))"
    using scanned_prints [OF assms(3), of p] fix_prints_scanned [of d p ts lib dry] assms(1) by blast
  have kept: "(k, v) \<in> set a"
    if "\<not> removable (k, v)" and "Save q a \<in> set (snd (fix_comment_fields lib p dry d))" for q a
    using fix_saves_kept [of d p ts q a lib dry] assms(1,2,3) that by simp
  have nodel: "Del k \<notin> set (snd (fix_comment_fields lib p dry d))" if "\<not> removable (k, v)"
    using fix_del_in_keys [of d p ts k lib dry] assms(1) removable_key_iff [OF assms(2,3)] that
    by blast
  show ?thesis
  proof (cases "spec_classify description language")
    case Preserve
    then have c: "description = ''Songs-DB_Custom1''"
      by (simp add: spec_classify_def split: if_splits)
    from Preserve rv have n: "\<not> removable (k, v)" by simp
    from printed c dv assms(4)
    have "Keeping k (first_text v) \<in> set (snd (fix_comment_fields lib p dry d))" by simp
    with Preserve key nodel [OF n] kept [OF n] show ?thesis by simp
  next
    case Remove
    with rv have r: "removable (k, v)" by simp
    from Remove have c: "description \<noteq> ''Songs-DB_Custom1''"
      "(description = ''ID3v1 Comment'' \<and> language = ''eng'')
        \<or> (description = [] \<and> language = ''XXX'')"
      by (auto simp: spec_classify_def split: if_splits)
    from printed c dv assms(4)
    have "WillRemoveLegacy k description (preview 50 (first_text v))
              \<in> set (snd (fix_comment_fields lib p dry d))
            \<or> WillRemoveEmpty k (preview 50 (first_text v))
              \<in> set (snd (fix_comment_fields lib p dry d))"
      by (auto split: if_splits)
    moreover have "\<not> dry \<longrightarrow> Del k \<in> set (snd (fix_comment_fields lib p dry d))
              \<and> (\<exists>a. Save p a \<in> set (snd (fix_comment_fields lib p dry d))
                    \<and> k \<notin> fst ` set a)"
    proof
      assume "\<not> dry"
      then have f: "dry = False" by simp
      from fix_removes [of d p ts k v lib] assms(1,2,3) r
      show "Del k \<in> set (snd (fix_comment_fields lib p dry d))
              \<and> (\<exists>a. Save p a \<in> set (snd (fix_comment_fields lib p dry d))
                    \<and> k \<notin> fst ` set a)"
        unfolding f by blast
    qed
    ultimately show ?thesis using Remove key by simp
  next
    case PreserveOther
    then have c: "description \<noteq> ''Songs-DB_Custom1''"
      "\<not> (description = ''ID3v1 Comment'' \<and> language = ''eng'')"
      "\<not> (description = [] \<and> language = ''XXX'')"
      by (auto simp: spec_classify_def split: if_splits)
    from PreserveOther rv have n: "\<not> removable (k, v)" by simp
    from printed c dv assms(4)
    have "KeepingOther k description language \<in> set (snd (fix_comment_fields lib p dry d))"
      by simp
    with PreserveOther key nodel [OF n] kept [OF n] show ?thesis by simp
  qed
qed

text \<open>
  C1 at the three frames of the scenario, one of each class, in apply mode.
\<close>

theorem classification_follows_decision_table_witness:
  "Del ''COMM:ID3v1 Comment:eng'' \<in> set (snd (fix_comment_fields faithful ''song.mp3'' False scenario_disk))
   \<and> ''COMM:ID3v1 Comment:eng'' \<in> set (fst (scan scenario []))
   \<and> Del ''COMM::eng'' \<notin> set (snd (fix_comment_fields faithful ''song.mp3'' False scenario_disk))
   \<and> KeepingOther ''COMM::eng'' [] ''eng''
        \<in> set (snd (fix_comment_fields faithful ''song.mp3'' False scenario_disk))
   \<and> Keeping ''COMM:Songs-DB_Custom1:XXX'' ''keep me''
        \<in> set (snd (fix_comment_fields faithful ''song.mp3'' False scenario_disk))"
proof -
  have h1: "scenario_disk ''song.mp3'' = Tagged scenario" by (simp add: scenario_disk_def)
  have h2: "distinct (map fst scenario)" by (simp add: scenario_def)
  have m1: "(''COMM::eng'', comm [] ''eng'' [''dup'']) \<in> set scenario"
    and m2: "(''COMM:ID3v1 Comment:eng'', comm ''ID3v1 Comment'' ''eng'' [''legacy'']) \<in> set scenario"
    and m3: "(''COMM:Songs-DB_Custom1:XXX'', comm ''Songs-DB_Custom1'' ''XXX'' [''keep me'']) \<in> set scenario"
    by (simp_all add: scenario_def)
  have s: "startswith ''COMM::eng'' ''COMM''" "startswith ''COMM:ID3v1 Comment:eng'' ''COMM''"
    "startswith ''COMM:Songs-DB_Custom1:XXX'' ''COMM''"
    by (simp_all add: startswith_def)
  have a: "desc (comm x y z) = Some x" "lang (comm x y z) = Some y" for x y z
    by (simp_all add: comm_def)
  have t: "first_text (comm ''Songs-DB_Custom1'' ''XXX'' [''keep me'']) = ''keep me''"
    by (simp add: first_text_def comm_def)
  note c = classification_follows_decision_table
    [where d = scenario_disk and p = "''song.mp3''" and ts = scenario and before = "[]"
       and lib = faithful and dry = False, OF h1 h2]
  from c [OF m1 s(1) a] c [OF m2 s(2) a] c [OF m3 s(3) a] t
  show ?thesis by (simp add: spec_classify_def)
qed

text \<open>
  C2. A frame with description \<^verbatim>\<open>Songs-DB_Custom1\<close> in a loaded tag is never deleted, in
  dry-run mode and in apply mode, whatever its language and whatever the other frames are:
  every dictionary handed to \<^verbatim>\<open>save\<close> holds it under the same key, unchanged. After the call
  the file holds the tag it held before, or what the library wrote of a dictionary that holds
  the frame, so the frame is in the file whenever the library writes it; in dry-run mode no
  file has changed.
\<close>

theorem custom1_frame_survives:
  assumes "d p = Tagged ts" and "distinct (map fst ts)"
    and "(k, v) \<in> set ts" and "desc v = Some ''Songs-DB_Custom1''"
  shows "Del k \<notin> set (snd (fix_comment_fields lib p dry d))
   \<and> (\<forall>q a. Save q a \<in> set (snd (fix_comment_fields lib p dry d)) \<longrightarrow> (k, v) \<in> set a)
   \<and> (fst (fix_comment_fields lib p dry d) p = Tagged ts
       \<or> (\<exists>a. (k, v) \<in> set a \<and> fst (fix_comment_fields lib p dry d) p = Tagged (written lib a)))
   \<and> ((\<forall>a. (k, v) \<in> set a \<longrightarrow> (k, v) \<in> set (written lib a)) \<longrightarrow>
        (\<exists>ts'. fst (fix_comment_fields lib p dry d) p = Tagged ts' \<and> (k, v) \<in> set ts'))
   \<and> (dry \<longrightarrow> fst (fix_comment_fields lib p dry d) = d)"
proof -
  from assms(4) have n: "\<not> removable (k, v)" by (simp add: removable_def desc_or_def)
  with assms(3) have kept: "(k, v) \<in> set (filter (\<lambda>e. \<not> removable e) ts)" by simp
  have "Del k \<notin> set (snd (fix_comment_fields lib p dry d))"
    using fix_del_in_keys [of d p ts k lib dry] assms(1) removable_key_iff [OF assms(2,3)] n
    by blast
  moreover have "\<forall>q a. Save q a \<in> set (snd (fix_comment_fields lib p dry d)) \<longrightarrow> (k, v) \<in> set a"
    using fix_saves_kept [of d p ts _ _ lib dry] assms(1,2) kept by blast
  moreover have "fst (fix_comment_fields lib p dry d) p = Tagged ts
       \<or> (\<exists>a. (k, v) \<in> set a \<and> fst (fix_comment_fields lib p dry d) p = Tagged (written lib a))"
  proof (cases "dry \<or> read_only lib p \<or> filter removable ts = []")
    case True
    with fix_tags_after [of d p ts lib dry] assms(1,2) show ?thesis by simp
  next
    case False
    with fix_tags_after [of d p ts lib dry] assms(1,2)
    have "fst (fix_comment_fields lib p dry d) p
        = Tagged (written lib (filter (\<lambda>e. \<not> removable e) ts))" by simp
    with kept show ?thesis by blast
  qed
  moreover from this assms(3)
  have "(\<forall>a. (k, v) \<in> set a \<longrightarrow> (k, v) \<in> set (written lib a)) \<longrightarrow>
        (\<exists>ts'. fst (fix_comment_fields lib p dry d) p = Tagged ts' \<and> (k, v) \<in> set ts')"
    by auto
  ultimately show ?thesis by (simp add: fix_dry_disk)
qed

text \<open>
  C2 at the scenario, in apply mode, with a library that writes what it is given; the
  language of the frame is \<^verbatim>\<open>XXX\<close>.
\<close>

theorem custom1_frame_survives_witness:
  "lang (comm ''Songs-DB_Custom1'' ''XXX'' [''keep me'']) = Some ''XXX''
   \<and> Del ''COMM:Songs-DB_Custom1:XXX''
        \<notin> set (snd (fix_comment_fields faithful ''song.mp3'' False scenario_disk))
   \<and> (\<exists>ts'. fst (fix_comment_fields faithful ''song.mp3'' False scenario_disk) ''song.mp3''
          = Tagged ts'
        \<and> (''COMM:Songs-DB_Custom1:XXX'', comm ''Songs-DB_Custom1'' ''XXX'' [''keep me''])
            \<in> set ts')"
proof -
  have h1: "scenario_disk ''song.mp3'' = Tagged scenario" by (simp add: scenario_disk_def)
  have h2: "distinct (map fst scenario)" by (simp add: scenario_def)
  have h3: "(''COMM:Songs-DB_Custom1:XXX'', comm ''Songs-DB_Custom1'' ''XXX'' [''keep me'']) \<in> set scenario"
    by (simp add: scenario_def)
  have h4: "desc (comm ''Songs-DB_Custom1'' ''XXX'' [''keep me'']) = Some ''Songs-DB_Custom1''"
    by (simp add: comm_def)
  have h5: "lang (comm ''Songs-DB_Custom1'' ''XXX'' [''keep me'']) = Some ''XXX''"
    by (simp add: comm_def)
  have h6: "written faithful a = a" for a by (simp add: faithful_def)
  from custom1_frame_survives
    [where d = scenario_disk and p = "''song.mp3''" and lib = faithful and dry = False,
     OF h1 h2 h3 h4] h5 h6
  show ?thesis by simp
qed

text \<open>
  C3. A call in dry-run mode leaves every file as it was and performs neither a deletion nor
  a save; when the tag has frames to remove, the last thing it prints is their number.
\<close>

theorem dry_run_changes_nothing:
  "fst (fix_comment_fields lib p True d) = d
   \<and> filter is_mutation (snd (fix_comment_fields lib p True d)) = []
   \<and> (\<forall>ts. d p = Tagged ts \<and> filter removable ts \<noteq> [] \<longrightarrow>
        last (snd (fix_comment_fields lib p True d)) = DryRunReport (length (filter removable ts)))"
  by (simp add: fix_dry_disk fix_dry_quiet fix_dry)

text \<open>
  C3 at the scenario: one frame would be removed.
\<close>

theorem dry_run_changes_nothing_witness:
  "scenario_disk ''song.mp3'' = Tagged scenario \<and> filter removable scenario \<noteq> []
   \<and> fst (fix_comment_fields faithful ''song.mp3'' True scenario_disk) = scenario_disk
   \<and> filter is_mutation (snd (fix_comment_fields faithful ''song.mp3'' True scenario_disk)) = []
   \<and> last (snd (fix_comment_fields faithful ''song.mp3'' True scenario_disk)) = DryRunReport 1"
proof -
  have h: "scenario_disk ''song.mp3'' = Tagged scenario \<and> filter removable scenario \<noteq> []"
    by (simp add: scenario_disk_def scenario_def removable_def run_simps)
  have n: "length (filter removable scenario) = 1"
    by (simp add: scenario_def removable_def run_simps)
  from h n dry_run_changes_nothing [of faithful "''song.mp3''" scenario_disk] show ?thesis
    by simp
qed

text \<open>
  C4. In apply mode a second call on the same file leaves the disk as the first call left
  it. When the save of the first call succeeds, no entry of the tag it leaves in the file
  matches a removal rule, so the \<open>to_remove\<close> list of the second call is empty: it deletes
  nothing, saves nothing and reports that no problematic field was found. The tag has no key
  twice, and the library writes no frame that it was not given.
\<close>

theorem apply_twice_same_as_once:
  assumes "d p = Tagged ts" and "distinct (map fst ts)"
    and "\<And>a. set (written lib a) \<subseteq> set a"
  shows "fst (fix_comment_fields lib p False (fst (fix_comment_fields lib p False d)))
      = fst (fix_comment_fields lib p False d)
   \<and> (\<not> read_only lib p \<longrightarrow>
        (\<exists>ts1. fst (fix_comment_fields lib p False d) p = Tagged ts1
           \<and> filter removable ts1 = []
           \<and> (\<forall>e \<in> set ts1. startswith (fst e) ''COMM'' \<longrightarrow> \<not> matches_removal_rule (snd e))
           \<and> fst (scan ts1 ([Banner p, BeforeHeader] @ before_listing ts1)) = [])
        \<and> filter is_mutation
             (snd (fix_comment_fields lib p False (fst (fix_comment_fields lib p False d)))) = []
        \<and> last (snd (fix_comment_fields lib p False (fst (fix_comment_fields lib p False d))))
             = NoProblems)"
proof (cases "read_only lib p \<and> filter removable ts \<noteq> []")
  case True
  with fix_apply [of d p ts lib] assms(1,2)
  have "fst (fix_comment_fields lib p False d) = d" by simp
  with True show ?thesis by simp
next
  case False
  let ?d1 = "fst (fix_comment_fields lib p False d)"
  define ts1 where "ts1 = (if filter removable ts = [] then ts
      else written lib (filter (\<lambda>e. \<not> removable e) ts))"
  have d1: "?d1 p = Tagged ts1"
    using fix_tags_after [of d p ts lib False] assms(1,2) False by (auto simp: ts1_def)
  have sub: "set ts1 \<subseteq> set (filter (\<lambda>e. \<not> removable e) ts)"
  proof (cases "filter removable ts = []")
    case True
    then show ?thesis by (auto simp: ts1_def filter_empty_conv)
  next
    case False
    with assms(3) [of "filter (\<lambda>e. \<not> removable e) ts"] show ?thesis by (simp add: ts1_def)
  qed
  then have clean: "filter removable ts1 = []" by (auto simp: filter_empty_conv)
  have rules: "\<forall>e \<in> set ts1. startswith (fst e) ''COMM'' \<longrightarrow> \<not> matches_removal_rule (snd e)"
  proof (intro ballI impI)
    fix e assume e: "e \<in> set ts1" and c: "startswith (fst e) ''COMM''"
    from e clean have "\<not> removable e" by (simp add: filter_empty_conv)
    with rule_removable [of "fst e" "snd e"] c show "\<not> matches_removal_rule (snd e)" by auto
  qed
  have scan0: "fst (scan ts1 ([Banner p, BeforeHeader] @ before_listing ts1)) = []"
    using scan_eq [of ts1 p] clean by auto
  from fix_clean [of ?d1 p ts1 lib False] d1 clean
  have second: "fix_comment_fields lib p False ?d1 = (?d1, scanned p ts1 @ [NoProblems])" by simp
  with d1 clean rules scan0 show ?thesis
    by (simp add: scanned_no_mutation)
qed

text \<open>
  C4 at the scenario.
\<close>

theorem apply_twice_same_as_once_witness:
  "\<not> read_only faithful ''song.mp3''
   \<and> fst (fix_comment_fields faithful ''song.mp3'' False
        (fst (fix_comment_fields faithful ''song.mp3'' False scenario_disk)))
      = fst (fix_comment_fields faithful ''song.mp3'' False scenario_disk)
   \<and> last (snd (fix_comment_fields faithful ''song.mp3'' False
        (fst (fix_comment_fields faithful ''song.mp3'' False scenario_disk)))) = NoProblems
   \<and> filter is_mutation (snd (fix_comment_fields faithful ''song.mp3'' False
        (fst (fix_comment_fields faithful ''song.mp3'' False scenario_disk)))) = []"
proof -
  have h1: "scenario_disk ''song.mp3'' = Tagged scenario" by (simp add: scenario_disk_def)
  have h2: "distinct (map fst scenario)" by (simp add: scenario_def)
  have h3: "set (written faithful a) \<subseteq> set a" for a by (simp add: faithful_def)
  have h4: "\<not> read_only faithful ''song.mp3''" by (simp add: faithful_def)
  from apply_twice_same_as_once
    [where d = scenario_disk and p = "''song.mp3''" and lib = faithful, OF h1 h2 h3] h4
  show ?thesis by blast
qed

text \<open>
  C5. When no entry of the loaded tag matches a removal rule (in particular when the tag has
  no \<^verbatim>\<open>COMM\<close> frame), a call in either mode leaves the disk as it was, performs neither a
  deletion nor a save, and ends by reporting that no problematic field was found.
\<close>

theorem no_removal_rule_no_change:
  assumes "d p = Tagged ts" and "\<forall>e \<in> set ts. \<not> removable e"
  shows "fst (fix_comment_fields lib p dry d) = d
   \<and> filter is_mutation (snd (fix_comment_fields lib p dry d)) = []
   \<and> last (snd (fix_comment_fields lib p dry d)) = NoProblems"
proof -
  from assms(2) have "filter removable ts = []" by (simp add: filter_empty_conv)
  with assms(1) show ?thesis by (simp add: fix_clean scanned_no_mutation)
qed

text \<open>
  C5 at a tag with a title and no \<^verbatim>\<open>COMM\<close> frame, in apply mode.
\<close>

theorem no_removal_rule_no_change_witness:
  "shelf_disk ''shelf/c.mp3'' = Tagged [(''TIT2'', title ''Song'')]
   \<and> filter removable [(''TIT2'', title ''Song'')] = []
   \<and> fst (fix_comment_fields faithful ''shelf/c.mp3'' False shelf_disk) = shelf_disk
   \<and> filter is_mutation (snd (fix_comment_fields faithful ''shelf/c.mp3'' False shelf_disk)) = []
   \<and> last (snd (fix_comment_fields faithful ''shelf/c.mp3'' False shelf_disk)) = NoProblems"
proof -
  have h1: "shelf_disk ''shelf/c.mp3'' = Tagged [(''TIT2'', title ''Song'')]"
    by (simp add: shelf_disk_def)
  have h2: "\<forall>e \<in> set [(''TIT2'', title ''Song'')]. \<not> removable e"
    by (simp add: removable_def startswith_def)
  have h3: "filter removable [(''TIT2'', title ''Song'')] = []"
    by (simp add: removable_def startswith_def)
  from no_removal_rule_no_change
    [where d = shelf_disk and p = "''shelf/c.mp3''" and lib = faithful and dry = False, OF h1 h2]
    h1 h3
  show ?thesis by blast
qed

text \<open>
  C6, as the code runs it. A file that fails to load leaves the state of the batch loop as it
  was: nothing is printed for it and nothing is counted. The run ends on the same disk and
  with the same output after its first line as a run over the loadable files alone; the first
  line gives the number of files found, the unreadable ones included, and the summary gives
  one number only, the files that needed fixing.
\<close>

theorem batch_skips_unreadable_silently:
  "fst (batch_fix lib glob directory dry d)
      = fst (batch_fix lib (\<lambda>x. filter (loadable d) (glob directory)) directory dry d)
   \<and> tl (snd (batch_fix lib glob directory dry d))
      = tl (snd (batch_fix lib (\<lambda>x. filter (loadable d) (glob directory)) directory dry d))
   \<and> hd (snd (batch_fix lib glob directory dry d)) = Found (length (glob directory)) directory
   \<and> (\<not> loadable d p \<longrightarrow> batch_file lib dry p (d, n, out) = (d, n, out))"
proof -
  have "\<not> loadable d p \<longrightarrow> batch_file lib dry p (d, n, out) = (d, n, out)"
    by (auto simp: batch_file_eq needs_fixing_def loadable_def split: mp3.splits)
  then show ?thesis
    by (simp add: batch_fix_eq batch_skips_unreadable split: prod.splits)
qed

text \<open>
  C6, as the code runs it, at the directory \<^verbatim>\<open>shelf\<close> and its unreadable file.
\<close>

theorem batch_skips_unreadable_silently_witness:
  "\<not> loadable shelf_disk ''shelf/b.mp3''
   \<and> batch_file faithful True ''shelf/b.mp3'' (shelf_disk, 0, []) = (shelf_disk, 0, [])
   \<and> tl (snd (batch_fix faithful shelf_glob ''shelf'' True shelf_disk))
      = tl (snd (batch_fix faithful (\<lambda>x. filter (loadable shelf_disk) (shelf_glob ''shelf''))
           ''shelf'' True shelf_disk))"
proof -
  have h: "\<not> loadable shelf_disk ''shelf/b.mp3''" by (simp add: loadable_def shelf_disk_def)
  from batch_skips_unreadable_silently
    [of faithful shelf_glob "''shelf''" True shelf_disk "''shelf/b.mp3''" 0 "[]"] h
  show ?thesis by blast
qed

text \<open>
  C6, as the specification states it, fails: on a directory of three files of which the
  second cannot be loaded, the run prints that it found 3 files and that 0 files need fixing,
  and nothing else. The summary counts neither 2 processed files nor 1 skipped file, and it
  is the same when the second file loads.
\<close>

theorem batch_summary_has_no_failure_count:
  "shelf_glob ''shelf'' = [''shelf/a.mp3'', ''shelf/b.mp3'', ''shelf/c.mp3'']
   \<and> ID3 shelf_disk ''shelf/a.mp3'' = Inr tidy
   \<and> ID3 shelf_disk ''shelf/b.mp3'' = Inl (LoadError ''shelf/b.mp3'')
   \<and> ID3 shelf_disk ''shelf/c.mp3'' = Inr [(''TIT2'', title ''Song'')]
   \<and> snd (batch_fix faithful shelf_glob ''shelf'' True shelf_disk) = [Found 3 ''shelf'', Summary 0]
   \<and> snd (batch_fix faithful shelf_glob ''shelf'' True (shelf_disk(''shelf/b.mp3'' := Tagged [])))
       = [Found 3 ''shelf'', Summary 0]"
  by (simp add: batch_fix_def batch_file_def shelf_glob_def shelf_disk_def tidy_def ID3_def
      startswith_def desc_or_def lang_or_def comm_def title_def)

text \<open>
  C7, as the code runs it. On the tag \<^verbatim>\<open>COMM::eng\<close>, \<^verbatim>\<open>COMM:ID3v1 Comment:eng\<close>,
  \<^verbatim>\<open>COMM:Songs-DB_Custom1:XXX\<close>, a run in apply mode deletes the \<^verbatim>\<open>ID3v1 Comment\<close> frame
  alone and saves the two other frames: the file keeps \<^verbatim>\<open>COMM::eng\<close> (empty description, but
  language \<^verbatim>\<open>eng\<close>, not \<^verbatim>\<open>XXX\<close>) next to the \<^verbatim>\<open>Songs-DB_Custom1\<close> frame.
\<close>

theorem scenario_apply_keeps_comm_eng:
  "fst (fix_comment_fields faithful ''song.mp3'' False scenario_disk) ''song.mp3'' =
     Tagged [(''COMM::eng'', comm [] ''eng'' [''dup'']),
             (''COMM:Songs-DB_Custom1:XXX'', comm ''Songs-DB_Custom1'' ''XXX'' [''keep me''])]
   \<and> filter is_mutation (snd (fix_comment_fields lib ''song.mp3'' False scenario_disk)) =
     [Del ''COMM:ID3v1 Comment:eng'',
      Save ''song.mp3''
        [(''COMM::eng'', comm [] ''eng'' [''dup'']),
         (''COMM:Songs-DB_Custom1:XXX'', comm ''Songs-DB_Custom1'' ''XXX'' [''keep me''])]]"
  by (simp add: run_simps scenario_disk_def scenario_def)

text \<open>
  C7, as the specification states it, fails: after the run in apply mode the tag is not the
  \<^verbatim>\<open>Songs-DB_Custom1\<close> frame alone, whether the save succeeds or not, and the \<^verbatim>\<open>COMM::eng\<close>
  frame was not deleted.
\<close>

theorem scenario_not_only_custom1:
  "fst (fix_comment_fields faithful ''song.mp3'' False scenario_disk) ''song.mp3'' \<noteq>
     Tagged [(''COMM:Songs-DB_Custom1:XXX'', comm ''Songs-DB_Custom1'' ''XXX'' [''keep me''])]
   \<and> Del ''COMM::eng'' \<notin> set (snd (fix_comment_fields faithful ''song.mp3'' False scenario_disk))
   \<and> fst (fix_comment_fields refusing ''song.mp3'' False scenario_disk) ''song.mp3'' \<noteq>
     Tagged [(''COMM:Songs-DB_Custom1:XXX'', comm ''Songs-DB_Custom1'' ''XXX'' [''keep me''])]"
  by (simp add: run_simps refusing_def scenario_disk_def scenario_def)

text \<open>
  C8, at the inputs where the code leaves the claim. With \<^verbatim>\<open>--batch\<close> as the last argument
  the script prints that a directory is required and ends with exit status 0, not 1; with
  \<^verbatim>\<open>--apply\<close> as the only argument it takes \<^verbatim>\<open>--apply\<close> for the file and also ends with 0.
  With no argument at all it prints the usage and exits with 1.
\<close>

theorem batch_without_directory_exits_zero:
  "main lib glob [''fix_comments.py'', ''--batch''] d = (0, d, [BatchNeedsDir])
   \<and> fst (main lib glob [''fix_comments.py'', ''--apply''] d) = 0
   \<and> main lib glob [''fix_comments.py''] d = (1, d, [Usage])"
  by (simp add: main_def split: prod.splits)

text \<open>
  C9. An entry whose key does not start with \<^verbatim>\<open>COMM\<close> is never deleted, in dry-run mode and
  in apply mode: every dictionary handed to \<^verbatim>\<open>save\<close> holds it under the same key, unchanged.
  After the call the file holds the tag it held before, or what the library wrote of a
  dictionary that holds the entry, so the entry is in the file whenever the library writes
  it; in dry-run mode no file has changed.
\<close>

theorem non_comm_frames_untouched:
  assumes "d p = Tagged ts" and "(k, v) \<in> set ts" and "\<not> startswith k ''COMM''"
  shows "Del k \<notin> set (snd (fix_comment_fields lib p dry d))
   \<and> (\<forall>q a. Save q a \<in> set (snd (fix_comment_fields lib p dry d)) \<longrightarrow> (k, v) \<in> set a)
   \<and> (fst (fix_comment_fields lib p dry d) p = Tagged ts
       \<or> (\<exists>a. (k, v) \<in> set a \<and> fst (fix_comment_fields lib p dry d) p = Tagged (written lib a)))
   \<and> ((\<forall>a. (k, v) \<in> set a \<longrightarrow> (k, v) \<in> set (written lib a)) \<longrightarrow>
        (\<exists>ts'. fst (fix_comment_fields lib p dry d) p = Tagged ts' \<and> (k, v) \<in> set ts'))
   \<and> (dry \<longrightarrow> fst (fix_comment_fields lib p dry d) = d)"
proof -
  let ?a = "filter (\<lambda>e. fst e \<notin> set (map fst (filter removable ts))) ts"
  have nk: "k \<notin> set (map fst (filter removable ts))"
    using assms(3) by (auto simp: removable_def)
  with assms(2) have kept: "(k, v) \<in> set ?a" by simp
  have "Del k \<notin> set (snd (fix_comment_fields lib p dry d))"
    using fix_del_in_keys [of d p ts k lib dry] assms(1) nk by blast
  moreover have "\<forall>q a. Save q a \<in> set (snd (fix_comment_fields lib p dry d)) \<longrightarrow> (k, v) \<in> set a"
    using fix_save_arg [of d p ts _ _ lib dry] assms(1) kept by blast
  moreover have "fst (fix_comment_fields lib p dry d) p = Tagged ts
       \<or> (\<exists>a. (k, v) \<in> set a \<and> fst (fix_comment_fields lib p dry d) p = Tagged (written lib a))"
  proof (cases "fst (fix_comment_fields lib p dry d) = d")
    case True
    with assms(1) show ?thesis by simp
  next
    case False
    with fix_disk_cases [of d p ts lib dry] assms(1)
    have "fst (fix_comment_fields lib p dry d) p = Tagged (written lib ?a)" by auto
    with kept show ?thesis by blast
  qed
  moreover from this assms(2)
  have "(\<forall>a. (k, v) \<in> set a \<longrightarrow> (k, v) \<in> set (written lib a)) \<longrightarrow>
        (\<exists>ts'. fst (fix_comment_fields lib p dry d) p = Tagged ts' \<and> (k, v) \<in> set ts')"
    by auto
  ultimately show ?thesis by (simp add: fix_dry_disk)
qed

text \<open>
  C9 at the title frame of a tag that loses a \<^verbatim>\<open>COMM\<close> frame in apply mode, with a
  library that writes what it is given.
\<close>

theorem non_comm_frames_untouched_witness:
  "\<not> startswith ''TIT2'' ''COMM''
   \<and> Del ''TIT2'' \<notin> set (snd (fix_comment_fields faithful ''music/a.mp3'' False library_disk))
   \<and> (\<exists>ts'. fst (fix_comment_fields faithful ''music/a.mp3'' False library_disk) ''music/a.mp3''
          = Tagged ts'
        \<and> (''TIT2'', title ''Song'') \<in> set ts')"
proof -
  have h1: "library_disk ''music/a.mp3'' = Tagged mixed" by (simp add: library_disk_def)
  have h2: "(''TIT2'', title ''Song'') \<in> set mixed" by (simp add: mixed_def)
  have h3: "\<not> startswith ''TIT2'' ''COMM''" by (simp add: startswith_def)
  have h4: "written faithful a = a" for a by (simp add: faithful_def)
  from non_comm_frames_untouched
    [where d = library_disk and p = "''music/a.mp3''" and lib = faithful and dry = False,
     OF h1 h2 h3] h3 h4
  show ?thesis by simp
qed

text \<open>
  C10. On a listing without repeated paths, \<open>batch_fix\<close> calls \<open>fix_comment_fields\<close> once
  for each loadable file whose tag has an entry matching a removal rule, in the order of the
  listing, and for no other file; the number in the summary is the number of these files, in
  dry-run mode and in apply mode alike. The pre-check of the batch loop is true exactly when
  the \<open>to_remove\<close> list of \<open>fix_comment_fields\<close> is not empty.
\<close>

theorem batch_precheck_matches_classifier:
  assumes "distinct (glob directory)"
  shows "last (snd (batch_fix lib glob directory dry d))
      = Summary (length (filter (needs_fixing d) (glob directory)))
   \<and> filter is_banner (snd (batch_fix lib glob directory dry d))
      = map Banner (filter (needs_fixing d) (glob directory))
   \<and> (\<forall>ts out. fst (fold check_step ts (False, 0, False)) = (fst (scan ts out) \<noteq> []))"
proof -
  obtain d' n' out' where f: "fold (batch_file lib dry) (glob directory) (d, 0, []) = (d', n', out')"
    by (cases "fold (batch_file lib dry) (glob directory) (d, 0, [])")
  from batch_fold [OF assms f]
  have "n' = length (filter (needs_fixing d) (glob directory))"
    and "filter is_banner out' = map Banner (filter (needs_fixing d) (glob directory))"
    by simp_all
  moreover have "\<forall>ts out. fst (fold check_step ts (False, 0, False)) = (fst (scan ts out) \<noteq> [])"
    by (simp add: check_has_problem scan_def scan_to_remove)
  ultimately show ?thesis
    by (simp add: batch_fix_eq f)
qed

text \<open>
  C10 at the directory \<^verbatim>\<open>music\<close> in apply mode: two of its four files need fixing.
\<close>

theorem batch_precheck_matches_classifier_witness:
  "distinct (library_glob ''music'')
   \<and> last (snd (batch_fix faithful library_glob ''music'' False library_disk)) = Summary 2
   \<and> filter is_banner (snd (batch_fix faithful library_glob ''music'' False library_disk))
      = [Banner ''music/a.mp3'', Banner ''music/d.mp3'']"
proof -
  have h: "distinct (library_glob ''music'')" by (simp add: library_glob_def)
  have n: "filter (needs_fixing library_disk) (library_glob ''music'')
      = [''music/a.mp3'', ''music/d.mp3'']"
    by (simp add: needs_fixing_def library_disk_def library_glob_def mixed_def tidy_def scenario_def
        removable_def startswith_def desc_or_def lang_or_def comm_def title_def)
  from batch_precheck_matches_classifier [of library_glob "''music''" faithful False library_disk, OF h] h n
  show ?thesis by simp
qed

section \<open>What the library and the file system can do to a run\<close>

text \<open>
  What is in the file after a save is the library's: with a library that leaves out frames
  without text, the \<^verbatim>\<open>Songs-DB_Custom1\<close> frame with an empty text is handed to \<^verbatim>\<open>save\<close> and
  yet is not in the file afterwards.
\<close>

lemma library_may_leave_out_kept_frame:
  "filter is_mutation (snd (fix_comment_fields sparing ''song.mp3'' False
       ((\<lambda>p. Unreadable)(''song.mp3'' := Tagged textless))))
     = [Del ''COMM:ID3v1 Comment:eng'',
        Save ''song.mp3'' [(''COMM:Songs-DB_Custom1:XXX'', comm ''Songs-DB_Custom1'' ''XXX'' [[]])]]
   \<and> fst (fix_comment_fields sparing ''song.mp3'' False
       ((\<lambda>p. Unreadable)(''song.mp3'' := Tagged textless))) ''song.mp3'' = Tagged []"
  by (simp add: run_simps sparing_def textless_def)

text \<open>
  When the save raises, the deletions were made in memory only: the handler reports the
  error and the file is as it was.
\<close>

lemma failing_save_keeps_file:
  "fix_comment_fields refusing ''song.mp3'' False scenario_disk =
     (scenario_disk,
      scanned ''song.mp3'' scenario
        @ [Del ''COMM:ID3v1 Comment:eng'',
           Save ''song.mp3''
             [(''COMM::eng'', comm [] ''eng'' [''dup'']),
              (''COMM:Songs-DB_Custom1:XXX'', comm ''Songs-DB_Custom1'' ''XXX'' [''keep me''])],
           ErrorReport (SaveError ''song.mp3'')])"
  by (simp add: run_simps refusing_def scenario_disk_def scenario_def scanned_def)

end
